theory Spec2Isabelle
  imports Main "HOL-Library.Word" "HOL-Library.Signed_Division"
begin

unbundle bit_operations_syntax

section \<open>The receive ring buffer of serial.c\<close>

text \<open>
  \<^verbatim>\<open>
  #ifdef __AVR_ATmega328P__
  #define RX_BUFFER_SIZE 256
  #else
  #define RX_BUFFER_SIZE 64
  #endif
  unsigned char rx_buffer[RX_BUFFER_SIZE];
  int rx_buffer_head = 0;
  int rx_buffer_tail = 0;
  \<close>
  The size depends on the compilation target, so every operation that uses it takes the
  target. The two indices are C \<open>int\<close>s: they are modelled as \<open>int\<close>, and C's \<open>%\<close>, which
  truncates towards zero, is \<open>smod\<close>. The array is a list; \<open>rx_wf\<close> below says that it has
  its declared length and that both indices are inside it, which is where every array access
  of the source is defined.
\<close>

datatype mcu = ATmega328P | OtherMCU

fun RX_BUFFER_SIZE :: "mcu \<Rightarrow> int" where
  "RX_BUFFER_SIZE ATmega328P = 256"
| "RX_BUFFER_SIZE OtherMCU = 64"

record rx_state =
  rx_buffer :: "8 word list"
  rx_buffer_head :: int
  rx_buffer_tail :: int

definition rx_init :: "mcu \<Rightarrow> rx_state" where
  "rx_init m = \<lparr>rx_buffer = replicate (nat (RX_BUFFER_SIZE m)) 0,
               rx_buffer_head = 0, rx_buffer_tail = 0\<rparr>"

definition rx_wf :: "mcu \<Rightarrow> rx_state \<Rightarrow> bool" where
  "rx_wf m s \<longleftrightarrow>
     int (length (rx_buffer s)) = RX_BUFFER_SIZE m \<and>
     0 \<le> rx_buffer_head s \<and> rx_buffer_head s < RX_BUFFER_SIZE m \<and>
     0 \<le> rx_buffer_tail s \<and> rx_buffer_tail s < RX_BUFFER_SIZE m"

text \<open>\<^verbatim>\<open>int serialAnyAvailable() { return (rx_buffer_head != rx_buffer_tail); }\<close>\<close>

definition serialAnyAvailable :: "rx_state \<Rightarrow> int" where
  "serialAnyAvailable s = (if rx_buffer_head s \<noteq> rx_buffer_tail s then 1 else 0)"

text \<open>
  \<^verbatim>\<open>
  int serialRead()
  {
    // if the head isn't ahead of the tail, we don't have any characters
    if (serialAnyAvailable()) {
      return -1;
    } else {
      unsigned char c = rx_buffer[rx_buffer_tail];
      rx_buffer_tail = (rx_buffer_tail + 1) % RX_BUFFER_SIZE;
      return c;
    }
  }
  \<close>
  The result is the returned \<open>int\<close> together with the state after the call.
\<close>

definition serialRead :: "mcu \<Rightarrow> rx_state \<Rightarrow> int \<times> rx_state" where
  "serialRead m s =
     (if serialAnyAvailable s \<noteq> 0 then (- 1, s)
      else
        let c = rx_buffer s ! nat (rx_buffer_tail s)
        in (uint c, s\<lparr>rx_buffer_tail := (rx_buffer_tail s + 1) smod RX_BUFFER_SIZE m\<rparr>))"

text \<open>\<^verbatim>\<open>void serialFlush() { rx_buffer_head = rx_buffer_tail; }\<close>\<close>

definition serialFlush :: "rx_state \<Rightarrow> rx_state" where
  "serialFlush s = s\<lparr>rx_buffer_head := rx_buffer_tail s\<rparr>"

text \<open>
  \<^verbatim>\<open>
  SIGNAL(USART_RX_vect)
  {
    unsigned char c = UDR0;
    int i = (rx_buffer_head + 1) % RX_BUFFER_SIZE;
    if (i != rx_buffer_tail) {
      rx_buffer[rx_buffer_head] = c;
      rx_buffer_head = i;
    }
  }
  \<close>
  The byte that the hardware holds in \<open>UDR0\<close> when the handler runs is the argument \<open>c\<close>.
\<close>

definition USART_RX_vect :: "mcu \<Rightarrow> 8 word \<Rightarrow> rx_state \<Rightarrow> rx_state" where
  "USART_RX_vect m c s =
     (let i = (rx_buffer_head s + 1) smod RX_BUFFER_SIZE m
      in if i \<noteq> rx_buffer_tail s
         then s\<lparr>rx_buffer := (rx_buffer s)[nat (rx_buffer_head s) := c],
                rx_buffer_head := i\<rparr>
         else s)"

text \<open>Delivering a sequence of bytes, one handler invocation per byte, with no read between.\<close>

definition rx_receive :: "mcu \<Rightarrow> 8 word list \<Rightarrow> rx_state \<Rightarrow> rx_state" where
  "rx_receive m cs s = foldl (\<lambda>s c. USART_RX_vect m c s) s cs"

text \<open>
  The ring convention of the buffer: the bytes held are those from \<open>tail\<close> up to, not
  including, \<open>head\<close>, so their number is \<open>(head - tail) mod RX_BUFFER_SIZE\<close>.
\<close>

definition rx_count :: "mcu \<Rightarrow> rx_state \<Rightarrow> nat" where
  "rx_count m s = nat ((rx_buffer_head s - rx_buffer_tail s) mod RX_BUFFER_SIZE m)"

text \<open>
  The bytes a ring of capacity \<open>N\<close> holds, oldest first: \<open>n\<close> slots starting at index \<open>t\<close>,
  wrapping at \<open>N\<close>.
\<close>

definition ring_contents :: "'a list \<Rightarrow> nat \<Rightarrow> nat \<Rightarrow> nat \<Rightarrow> 'a list" where
  "ring_contents buf N t n = map (\<lambda>k. buf ! ((t + k) mod N)) [0..<n]"

definition rx_contents :: "mcu \<Rightarrow> rx_state \<Rightarrow> 8 word list" where
  "rx_contents m s =
     ring_contents (rx_buffer s) (nat (RX_BUFFER_SIZE m)) (nat (rx_buffer_tail s)) (rx_count m s)"

section \<open>The transmit ring buffer and the data-register-empty interrupt\<close>

text \<open>
  \<^verbatim>\<open>
  #define TX_BUFFER_SIZE 16
  unsigned char tx_buffer[TX_BUFFER_SIZE];
  unsigned char tx_buffer_head = 0;
  volatile unsigned char tx_buffer_tail = 0;
  \<close>
  Both indices are 8-bit unsigned. Of the peripheral, the state holds the two control
  registers the code touches, \<open>UCSR0A\<close> and \<open>UCSR0B\<close>, and, for the output register, the
  sequence of bytes that have been written to \<open>UDR0\<close>, oldest first.

  The bit numbers \<open>UDRE0\<close> (in \<open>UCSR0A\<close>) and \<open>UDRIE0\<close> (in \<open>UCSR0B\<close>) come from the
  device header \<^verbatim>\<open>avr/io.h\<close>, which is not among the sources; the operations take them
  as a parameter.
\<close>

definition TX_BUFFER_SIZE :: "'a::numeral" where
  "TX_BUFFER_SIZE = 16"

record avr_bits =
  UDRE0 :: nat
  UDRIE0 :: nat

record tx_state =
  tx_buffer :: "8 word list"
  tx_buffer_head :: "8 word"
  tx_buffer_tail :: "8 word"
  UCSR0A :: "8 word"
  UCSR0B :: "8 word"
  UDR0 :: "8 word list"

definition tx_wf :: "tx_state \<Rightarrow> bool" where
  "tx_wf s \<longleftrightarrow>
     length (tx_buffer s) = TX_BUFFER_SIZE \<and>
     unat (tx_buffer_head s) < TX_BUFFER_SIZE \<and>
     unat (tx_buffer_tail s) < TX_BUFFER_SIZE"


text \<open>
  \<^verbatim>\<open>
  void serialWrite(unsigned char c) {
    if ((!(UCSR0A & (1 << UDRE0))) || (tx_buffer_head != tx_buffer_tail)) {
      unsigned char newhead = tx_buffer_head + 1;
      newhead %= TX_BUFFER_SIZE;
      while (newhead == tx_buffer_tail) ;
      tx_buffer[tx_buffer_head] = c;
      tx_buffer_head = newhead;
      sei();
      UCSR0B |=  (1 << UDRIE0);
    }
    else {
      UDR0 = c;
    }
  }
  \<close>
  The function is modelled in the pieces its control flow has: the condition of the \<open>if\<close>,
  the computation of \<open>newhead\<close>, the wait loop, the two stores, the enabling of the
  interrupt, and the direct write.
\<close>

definition use_buffer :: "avr_bits \<Rightarrow> tx_state \<Rightarrow> bool" where
  "use_buffer b s \<longleftrightarrow>
     UCSR0A s AND push_bit (UDRE0 b) 1 = 0 \<or> tx_buffer_head s \<noteq> tx_buffer_tail s"

definition next_head :: "tx_state \<Rightarrow> 8 word" where
  "next_head s = (tx_buffer_head s + 1) mod TX_BUFFER_SIZE"

text \<open>
  The wait loop has an empty body. Run without the interrupt handler it either falls through
  at once or never ends; not returning is \<open>None\<close>.
\<close>

partial_function (option) wait_for_space :: "8 word \<Rightarrow> tx_state \<Rightarrow> tx_state option" where
  "wait_for_space newhead s =
     (if newhead = tx_buffer_tail s then wait_for_space newhead s else Some s)"

definition tx_store :: "8 word \<Rightarrow> 8 word \<Rightarrow> tx_state \<Rightarrow> tx_state" where
  "tx_store c newhead s =
     s\<lparr>tx_buffer := (tx_buffer s)[unat (tx_buffer_head s) := c],
       tx_buffer_head := newhead\<rparr>"

definition tx_arm :: "avr_bits \<Rightarrow> tx_state \<Rightarrow> tx_state" where
  "tx_arm b s = s\<lparr>UCSR0B := UCSR0B s OR push_bit (UDRIE0 b) 1\<rparr>"

definition write_UDR0 :: "8 word \<Rightarrow> tx_state \<Rightarrow> tx_state" where
  "write_UDR0 c s = s\<lparr>UDR0 := UDR0 s @ [c]\<rparr>"

definition serialWrite :: "avr_bits \<Rightarrow> 8 word \<Rightarrow> tx_state \<Rightarrow> tx_state option" where
  "serialWrite b c s =
     (if use_buffer b s then
        let newhead = next_head s
        in case wait_for_space newhead s of
             None \<Rightarrow> None
           | Some s' \<Rightarrow> Some (tx_arm b (tx_store c newhead s'))
      else Some (write_UDR0 c s))"

text \<open>
  \<^verbatim>\<open>
  SIGNAL(USART_UDRE_vect) {
    unsigned char tail = tx_buffer_tail;
    unsigned char c = tx_buffer[tail];
    UDR0 = c;
    tail ++;
    tail %= TX_BUFFER_SIZE;
    if (tail == tx_buffer_head) {
      UCSR0B &=  ~(1 << UDRIE0);
    }
    tx_buffer_tail = tail;
  }
  \<close>
\<close>

definition USART_UDRE_vect :: "avr_bits \<Rightarrow> tx_state \<Rightarrow> tx_state" where
  "USART_UDRE_vect b s =
     (let tail = tx_buffer_tail s;
          c = tx_buffer s ! unat tail;
          s1 = write_UDR0 c s;
          tail = (tail + 1) mod TX_BUFFER_SIZE;
          s2 = (if tail = tx_buffer_head s1
                then s1\<lparr>UCSR0B := UCSR0B s1 AND NOT (push_bit (UDRIE0 b) 1)\<rparr>
                else s1)
      in s2\<lparr>tx_buffer_tail := tail\<rparr>)"



subsection \<open>Foreground statements interleaved with the interrupt handler\<close>












section \<open>Printing integers\<close>

text \<open>
  \<^verbatim>\<open>void printByte(unsigned char c) { serialWrite(c); }\<close>
  The printing functions are followed through the bytes they hand to \<open>serialWrite\<close>: the
  state they thread is the sequence of those bytes, oldest first.
\<close>

definition printByte :: "8 word \<Rightarrow> 8 word list \<Rightarrow> 8 word list" where
  "printByte c out = out @ [c]"

text \<open>
  \<^verbatim>\<open>
  void printIntegerInBase(unsigned long n, unsigned long base)
  {
    unsigned char buf[8 * sizeof(long)]; // Assumes 8-bit chars.
    unsigned long i = 0;
    if (n == 0) {
      printByte('0');
      return;
    }
    while (n > 0) {
      buf[i++] = n % base;
      n /= base;
    }
    for (; i > 0; i--)
      printByte(buf[i - 1] < 10 ?
        '0' + buf[i - 1] :
        'A' + buf[i - 1] - 10);
  }
  \<close>
  On the AVR target \<open>long\<close> has four bytes: \<open>unsigned long\<close> is a 32-bit word and \<open>buf\<close> has
  32 elements. What C leaves undefined is a fault: a remainder by zero, and a store behind
  the end of \<open>buf\<close>. A loop that does not end is \<open>None\<close>. The local array has no initial
  value in C; the model starts it with zeros.
\<close>

datatype fault = Division_by_zero | Buffer_overrun

definition sizeof_long :: nat where
  "sizeof_long = 4"

partial_function (option) printIntegerInBase_loop ::
  "32 word \<Rightarrow> 32 word \<Rightarrow> 8 word list \<Rightarrow> nat \<Rightarrow> (fault + 8 word list \<times> nat) option" where
  "printIntegerInBase_loop n base buf i =
     (if 0 < n then
        if base = 0 then Some (Inl Division_by_zero)
        else if length buf \<le> i then Some (Inl Buffer_overrun)
        else printIntegerInBase_loop (n div base) base (buf[i := ucast (n mod base)]) (i + 1)
      else Some (Inr (buf, i)))"

fun printIntegerInBase_emit :: "8 word list \<Rightarrow> nat \<Rightarrow> 8 word list \<Rightarrow> 8 word list" where
  "printIntegerInBase_emit buf 0 out = out"
| "printIntegerInBase_emit buf (Suc i) out =
     printIntegerInBase_emit buf i
       (printByte (if buf ! i < 10
                   then of_char (CHR ''0'') + buf ! i
                   else of_char (CHR ''A'') + buf ! i - 10) out)"

definition printIntegerInBase ::
  "32 word \<Rightarrow> 32 word \<Rightarrow> 8 word list \<Rightarrow> (fault + 8 word list) option" where
  "printIntegerInBase n base out =
     (if n = 0 then Some (Inr (printByte (of_char (CHR ''0'')) out))
      else
        case printIntegerInBase_loop n base (replicate (8 * sizeof_long) 0) 0 of
          None \<Rightarrow> None
        | Some (Inl e) \<Rightarrow> Some (Inl e)
        | Some (Inr (buf, i)) \<Rightarrow> Some (Inr (printIntegerInBase_emit buf i out)))"

text \<open>
  \<^verbatim>\<open>
  void printInteger(long n)
  {
    if (n < 0) {
      printByte('-');
      n = -n;
    }
    printIntegerInBase(n, 10);
  }
  \<close>
  The argument is a signed 32-bit value, held as a word and compared as signed.
\<close>

definition printInteger :: "32 word \<Rightarrow> 8 word list \<Rightarrow> (fault + 8 word list) option" where
  "printInteger n out =
     (if n <s 0 then printIntegerInBase (- n) 10 (printByte (of_char (CHR ''-'')) out)
      else printIntegerInBase n 10 out)"

subsection \<open>Positional notation, as a specification\<close>

text \<open>
  The digits of \<open>n\<close> in base \<open>b\<close>, most significant first, the value such a digit sequence
  denotes, and the symbol of a digit: \<open>0\<close> to \<open>9\<close>, then \<open>A\<close> to \<open>Z\<close>.
\<close>

function base_digits :: "nat \<Rightarrow> nat \<Rightarrow> nat list" where
  "base_digits b n = (if b < 2 \<or> n < b then [n] else base_digits b (n div b) @ [n mod b])"
  by pat_completeness auto
termination
  by (relation "measure snd") auto

declare base_digits.simps [simp del]

definition digits_value :: "nat \<Rightarrow> nat list \<Rightarrow> nat" where
  "digits_value b ds = foldl (\<lambda>a d. a * b + d) 0 ds"

definition digit_char :: "nat \<Rightarrow> 8 word" where
  "digit_char d = of_char (''0123456789ABCDEFGHIJKLMNOPQRSTUVWXYZ'' ! d)"

subsection \<open>Printing through the transmit buffer\<close>





section \<open>Basic facts\<close>

lemma RX_BUFFER_SIZE_gt1: "1 < RX_BUFFER_SIZE m"
  by (cases m) simp_all

lemma smod_nonneg_eq_mod: "0 \<le> (a::int) \<Longrightarrow> 0 < b \<Longrightarrow> a smod b = a mod b"
  by (simp add: smod_int_alt_def sgn_if)

lemma rx_next_index:
  assumes "0 \<le> i" "i < RX_BUFFER_SIZE m"
  shows "(i + 1) smod RX_BUFFER_SIZE m = (i + 1) mod RX_BUFFER_SIZE m"
  using assms RX_BUFFER_SIZE_gt1 [of m] by (simp add: smod_nonneg_eq_mod)

lemma rx_init_wf: "rx_wf m (rx_init m)"
  using RX_BUFFER_SIZE_gt1 [of m] by (simp add: rx_wf_def rx_init_def)

lemma succ_mod_cases:
  assumes "0 \<le> (h::int)" "h < N"
  shows "(h + 1) mod N = (if h + 1 = N then 0 else h + 1)"
  using assms by simp

lemma succ_mod_neq: "0 \<le> (h::int) \<Longrightarrow> h < N \<Longrightarrow> 1 < N \<Longrightarrow> (h + 1) mod N \<noteq> h"
  by (simp add: succ_mod_cases)

lemma full_after_succ:
  assumes "0 \<le> (h::int)" "h < N" "1 < N"
  shows "(h - (h + 1) mod N) mod N = N - 1"
proof (cases "h + 1 = N")
  case True
  then show ?thesis using assms by simp
next
  case False
  then have "(h + 1) mod N = h + 1" using assms by simp
  then show ?thesis using assms by (simp add: zmod_minus1)
qed

section \<open>Ring arithmetic\<close>

lemma length_ring_contents: "length (ring_contents buf N t n) = n"
  by (simp add: ring_contents_def)

lemma ring_index_distinct:
  assumes "k < n" "n < N"
  shows "(t + k) mod N \<noteq> (t + n) mod (N::nat)"
proof
  assume "(t + k) mod N = (t + n) mod N"
  then have "(t + n) mod N = (t + k) mod N" by simp
  then have "N dvd (t + n) - (t + k)"
    using assms by (simp add: mod_eq_dvd_iff_nat)
  then have "N dvd n - k" by simp
  moreover have "0 < n - k" "n - k < N" using assms by simp_all
  ultimately show False
    using nat_dvd_not_less by blast
qed

lemma ring_contents_snoc:
  assumes "length buf = N" "n < N"
  shows "ring_contents (buf[(t + n) mod N := c]) N t (Suc n) = ring_contents buf N t n @ [c]"
proof -
  have "(t + n) mod N < length buf" using assms by simp
  moreover have "\<forall>k\<in>set [0..<n]. (t + n) mod N \<noteq> (t + k) mod N"
    using assms ring_index_distinct [of _ n N t] by (simp add: neq_commute)
  ultimately show ?thesis
    by (simp add: ring_contents_def)
qed


lemma mod_diff_cases:
  assumes "0 \<le> (h::int)" "h < N" "0 \<le> t" "t < N"
  shows "(h - t) mod N = (if t \<le> h then h - t else h - t + N)"
proof (cases "t \<le> h")
  case True
  then show ?thesis using assms by simp
next
  case False
  have "(h - t) mod N = (h - t + N) mod N" by simp
  also have "\<dots> = h - t + N" using assms False by (simp del: mod_add_self2)
  finally show ?thesis using False by simp
qed

lemma rx_full_iff:
  assumes "0 \<le> (h::int)" "h < N" "0 \<le> t" "t < N"
  shows "((h + 1) mod N = t) = ((h - t) mod N = N - 1)"
  using assms by (auto simp add: succ_mod_cases mod_diff_cases split: if_splits)

lemma rx_count_succ:
  assumes "0 \<le> (h::int)" "h < N" "0 \<le> t" "t < N" "(h + 1) mod N \<noteq> t"
  shows "((h + 1) mod N - t) mod N = (h - t) mod N + 1"
proof (cases "h + 1 = N")
  case True
  then have "(h + 1) mod N = 0" by simp
  moreover have "(0 - t) mod N = (if t \<le> 0 then 0 - t else 0 - t + N)"
    using assms by (intro mod_diff_cases) simp_all
  ultimately show ?thesis
    using assms True by (simp add: mod_diff_cases split: if_splits)
next
  case False
  then have e: "(h + 1) mod N = h + 1" using assms by simp
  have "(h + 1 - t) mod N = (if t \<le> h + 1 then h + 1 - t else h + 1 - t + N)"
    using assms False by (intro mod_diff_cases) simp_all
  then show ?thesis
    using assms e by (simp add: mod_diff_cases split: if_splits)
qed

lemma rx_head_from_count:
  assumes "0 \<le> (h::int)" "h < N" "0 \<le> t" "t < N"
  shows "(nat t + nat ((h - t) mod N)) mod nat N = nat h"
proof -
  have "int ((nat t + nat ((h - t) mod N)) mod nat N) = (t + (h - t) mod N) mod N"
    using assms by (simp add: zmod_int)
  also have "\<dots> = h"
    using assms by (simp add: mod_diff_cases)
  finally show ?thesis by linarith
qed

lemma rx_count_less: "rx_wf m s \<Longrightarrow> rx_count m s < nat (RX_BUFFER_SIZE m)"
  using RX_BUFFER_SIZE_gt1 [of m] by (simp add: rx_count_def rx_wf_def nat_less_iff)

lemma length_rx_contents: "length (rx_contents m s) = rx_count m s"
  by (simp add: rx_contents_def length_ring_contents)

lemma USART_RX_vect_full:
  assumes "rx_wf m s" "rx_count m s = nat (RX_BUFFER_SIZE m) - 1"
  shows "USART_RX_vect m c s = s"
proof -
  let ?N = "RX_BUFFER_SIZE m"
  have N: "1 < ?N" by (rule RX_BUFFER_SIZE_gt1)
  have b: "0 \<le> rx_buffer_head s" "rx_buffer_head s < ?N"
      "0 \<le> rx_buffer_tail s" "rx_buffer_tail s < ?N"
    using assms(1) by (simp_all add: rx_wf_def)
  have "(rx_buffer_head s - rx_buffer_tail s) mod ?N = ?N - 1"
    using assms(2) N by (simp add: rx_count_def) 
  then have "(rx_buffer_head s + 1) mod ?N = rx_buffer_tail s"
    using rx_full_iff [OF b] by simp
  then show ?thesis
    using b by (simp add: USART_RX_vect_def rx_next_index)
qed

lemma USART_RX_vect_room:
  assumes "rx_wf m s" "rx_count m s \<noteq> nat (RX_BUFFER_SIZE m) - 1"
  shows "rx_wf m (USART_RX_vect m c s)"
    and "rx_buffer_tail (USART_RX_vect m c s) = rx_buffer_tail s"
    and "rx_buffer_head (USART_RX_vect m c s) = (rx_buffer_head s + 1) mod RX_BUFFER_SIZE m"
    and "rx_buffer (USART_RX_vect m c s) = (rx_buffer s)[nat (rx_buffer_head s) := c]"
    and "rx_count m (USART_RX_vect m c s) = Suc (rx_count m s)"
    and "rx_contents m (USART_RX_vect m c s) = rx_contents m s @ [c]"
proof -
  let ?N = "RX_BUFFER_SIZE m"
  let ?h = "rx_buffer_head s"
  let ?t = "rx_buffer_tail s"
  let ?s' = "s\<lparr>rx_buffer := (rx_buffer s)[nat ?h := c], rx_buffer_head := (?h + 1) mod ?N\<rparr>"
  have N: "1 < ?N" by (rule RX_BUFFER_SIZE_gt1)
  have b: "0 \<le> ?h" "?h < ?N" "0 \<le> ?t" "?t < ?N"
    using assms(1) by (simp_all add: rx_wf_def)
  have len: "length (rx_buffer s) = nat ?N"
    using assms(1) by (auto simp add: rx_wf_def)
  have "(?h - ?t) mod ?N \<noteq> ?N - 1"
    using assms(2) N by (simp add: rx_count_def nat_eq_iff)
  then have ne: "(?h + 1) mod ?N \<noteq> ?t"
    using rx_full_iff [OF b] by simp
  then have step: "USART_RX_vect m c s = ?s'"
    using b by (simp add: USART_RX_vect_def rx_next_index Let_def)
  show wf: "rx_wf m (USART_RX_vect m c s)"
    using assms(1) N by (simp add: step rx_wf_def)
  show "rx_buffer_tail (USART_RX_vect m c s) = ?t" by (simp add: step)
  show "rx_buffer_head (USART_RX_vect m c s) = (?h + 1) mod ?N" by (simp add: step)
  show "rx_buffer (USART_RX_vect m c s) = (rx_buffer s)[nat ?h := c]" by (simp add: step)
  have "((?h + 1) mod ?N - ?t) mod ?N = (?h - ?t) mod ?N + 1"
    using b ne by (rule rx_count_succ)
  then show cnt: "rx_count m (USART_RX_vect m c s) = Suc (rx_count m s)"
    using N by (simp add: step rx_count_def nat_add_distrib)
  have hd: "(nat ?t + rx_count m s) mod nat ?N = nat ?h"
    unfolding rx_count_def using b by (rule rx_head_from_count)
  have "ring_contents ((rx_buffer s)[(nat ?t + rx_count m s) mod nat ?N := c]) (nat ?N) (nat ?t)
          (Suc (rx_count m s)) = ring_contents (rx_buffer s) (nat ?N) (nat ?t) (rx_count m s) @ [c]"
    using len rx_count_less [OF assms(1)] by (rule ring_contents_snoc)
  then show "rx_contents m (USART_RX_vect m c s) = rx_contents m s @ [c]"
    unfolding rx_contents_def cnt by (simp add: step hd)
qed

section \<open>Reading from the receive buffer\<close>

text \<open>
  C1. The claim is that \<open>serialRead\<close> returns \<open>-1\<close> exactly when \<open>serialAnyAvailable\<close> is
  false, and returns the byte at the tail otherwise. The code tests the opposite way. After
  one byte, 65, has been received into the initial buffer, \<open>serialAnyAvailable\<close> is 1 and
  \<open>serialRead\<close> returns \<open>-1\<close> and changes nothing; on the initial, empty buffer
  \<open>serialAnyAvailable\<close> is 0 and \<open>serialRead\<close> returns the content of slot 0, which is 0,
  and not \<open>-1\<close>.
\<close>

theorem serialRead_inverted_test:
  "serialAnyAvailable (USART_RX_vect OtherMCU 65 (rx_init OtherMCU)) = 1 \<and>
   rx_buffer (USART_RX_vect OtherMCU 65 (rx_init OtherMCU)) ! 0 = 65 \<and>
   serialRead OtherMCU (USART_RX_vect OtherMCU 65 (rx_init OtherMCU)) =
     (- 1, USART_RX_vect OtherMCU 65 (rx_init OtherMCU)) \<and>
   serialAnyAvailable (rx_init OtherMCU) = 0 \<and>
   fst (serialRead OtherMCU (rx_init OtherMCU)) = 0"
  by (simp add: USART_RX_vect_def rx_init_def serialRead_def serialAnyAvailable_def
      smod_int_alt_def)

text \<open>
  C9. When \<open>serialRead\<close> is called on an empty buffer (head equal to tail, both inside the
  array), it returns the byte stored at the tail, and moves the tail one slot past the head;
  afterwards head and tail differ, \<open>serialAnyAvailable\<close> returns 1, and by the ring
  convention the buffer counts \<open>RX_BUFFER_SIZE - 1\<close> bytes, though none has arrived.
\<close>

theorem serialRead_on_empty_buffer:
  assumes "rx_wf m s" and "rx_buffer_head s = rx_buffer_tail s"
  shows "serialRead m s =
           (uint (rx_buffer s ! nat (rx_buffer_tail s)),
            s\<lparr>rx_buffer_tail := (rx_buffer_head s + 1) mod RX_BUFFER_SIZE m\<rparr>) \<and>
         rx_buffer_tail (snd (serialRead m s)) \<noteq> rx_buffer_head (snd (serialRead m s)) \<and>
         serialAnyAvailable (snd (serialRead m s)) = 1 \<and>
         int (rx_count m (snd (serialRead m s))) = RX_BUFFER_SIZE m - 1"
proof -
  let ?N = "RX_BUFFER_SIZE m"
  let ?h = "rx_buffer_head s"
  have N: "1 < ?N" by (rule RX_BUFFER_SIZE_gt1)
  have h: "0 \<le> ?h" "?h < ?N" using assms by (simp_all add: rx_wf_def)
  have nxt: "(rx_buffer_tail s + 1) smod ?N = (?h + 1) mod ?N"
    using h assms(2) rx_next_index [of ?h m] by simp
  have rd: "serialRead m s =
           (uint (rx_buffer s ! nat (rx_buffer_tail s)),
            s\<lparr>rx_buffer_tail := (?h + 1) mod ?N\<rparr>)"
    using assms(2) nxt by (simp add: serialRead_def serialAnyAvailable_def)
  have ne: "(?h + 1) mod ?N \<noteq> ?h"
    using h N by (rule succ_mod_neq)
  have cnt: "(?h - (?h + 1) mod ?N) mod ?N = ?N - 1"
    using h N by (rule full_after_succ)
  show ?thesis
    using rd ne cnt N by (simp add: serialAnyAvailable_def rx_count_def)
qed

theorem serialRead_on_empty_buffer_witness:
  "rx_wf OtherMCU (rx_init OtherMCU) \<and>
   rx_buffer_head (rx_init OtherMCU) = rx_buffer_tail (rx_init OtherMCU) \<and>
   fst (serialRead OtherMCU (rx_init OtherMCU)) = 0 \<and>
   rx_buffer_tail (snd (serialRead OtherMCU (rx_init OtherMCU))) = 1 \<and>
   serialAnyAvailable (snd (serialRead OtherMCU (rx_init OtherMCU))) = 1 \<and>
   int (rx_count OtherMCU (snd (serialRead OtherMCU (rx_init OtherMCU)))) = 63"
proof -
  have wf: "rx_wf OtherMCU (rx_init OtherMCU)" by (rule rx_init_wf)
  have e: "rx_buffer_head (rx_init OtherMCU) = rx_buffer_tail (rx_init OtherMCU)"
    by (simp add: rx_init_def)
  show ?thesis
    using wf e serialRead_on_empty_buffer [OF wf e] by (auto simp add: rx_init_def)
qed

section \<open>Flushing the receive buffer\<close>

text \<open>
  C3, as claimed: after \<open>serialFlush\<close> the tail has the value the head had, and the head
  is unchanged. It fails on the buffer that holds one byte (head 1, tail 0): the tail is
  still 0 and the head has become 0.
\<close>

theorem serialFlush_tail_follows_head_counterexample:
  "\<not> (rx_buffer_tail (serialFlush
          \<lparr>rx_buffer = (replicate 64 0)[0 := 65], rx_buffer_head = 1, rx_buffer_tail = 0\<rparr>) = 1 \<and>
      rx_buffer_head (serialFlush
          \<lparr>rx_buffer = (replicate 64 0)[0 := 65], rx_buffer_head = 1, rx_buffer_tail = 0\<rparr>) = 1)"
  by (simp add: serialFlush_def)

text \<open>
  C3, amended: \<open>serialFlush\<close> empties the receive buffer by assigning the tail to the head.
  After it the head has the value the tail had at entry, the tail and the array are
  unchanged, and \<open>serialAnyAvailable\<close> returns 0.
\<close>

theorem serialFlush_head_follows_tail:
  "rx_buffer_head (serialFlush s) = rx_buffer_tail s \<and>
   rx_buffer_tail (serialFlush s) = rx_buffer_tail s \<and>
   rx_buffer (serialFlush s) = rx_buffer s \<and>
   serialAnyAvailable (serialFlush s) = 0"
  by (simp add: serialFlush_def serialAnyAvailable_def)

section \<open>Receiving\<close>

lemma rx_receive_Cons: "rx_receive m (c # cs) s = rx_receive m cs (USART_RX_vect m c s)"
  by (simp add: rx_receive_def)

lemma rx_receive_Nil: "rx_receive m [] s = s"
  by (simp add: rx_receive_def)

lemma rx_receive_retains:
  assumes "rx_wf m s"
  shows "rx_wf m (rx_receive m cs s) \<and>
         rx_buffer_tail (rx_receive m cs s) = rx_buffer_tail s \<and>
         rx_contents m (rx_receive m cs s) =
           take (nat (RX_BUFFER_SIZE m) - 1) (rx_contents m s @ cs)"
  using assms
proof (induction cs arbitrary: s)
  case Nil
  have "rx_count m s \<le> nat (RX_BUFFER_SIZE m) - 1"
    using rx_count_less [OF Nil] by simp
  then show ?case
    using Nil by (simp add: rx_receive_Nil length_rx_contents)
next
  case (Cons c cs)
  show ?case
  proof (cases "rx_count m s = nat (RX_BUFFER_SIZE m) - 1")
    case True
    then have "USART_RX_vect m c s = s"
      using Cons.prems by (simp add: USART_RX_vect_full)
    then show ?thesis
      using Cons.IH [OF Cons.prems] True
      by (simp add: rx_receive_Cons length_rx_contents)
  next
    case False
    note room = USART_RX_vect_room [OF Cons.prems False, of c]
    show ?thesis
      using Cons.IH [OF room(1)] room(2) room(6)
      by (simp add: rx_receive_Cons)
  qed
qed

text \<open>
  C4. Bytes are delivered to the receive handler one after another, with no read between,
  into a buffer whose indices are inside the array. The tail never moves, the indices stay
  inside the array, and the buffer then holds the first \<open>RX_BUFFER_SIZE - 1\<close> of the bytes
  it held before followed by the bytes delivered: the oldest are kept. Once it holds
  \<open>RX_BUFFER_SIZE - 1\<close> bytes, a further byte leaves the whole state, head and array
  included, as it is.
\<close>

theorem USART_RX_vect_drops_when_full:
  assumes "rx_wf m s"
  shows "rx_wf m (rx_receive m cs s) \<and>
         rx_buffer_tail (rx_receive m cs s) = rx_buffer_tail s \<and>
         rx_contents m (rx_receive m cs s) =
           take (nat (RX_BUFFER_SIZE m) - 1) (rx_contents m s @ cs) \<and>
         rx_count m (rx_receive m cs s) =
           min (nat (RX_BUFFER_SIZE m) - 1) (rx_count m s + length cs) \<and>
         (rx_count m (rx_receive m cs s) = nat (RX_BUFFER_SIZE m) - 1 \<longrightarrow>
            USART_RX_vect m c (rx_receive m cs s) = rx_receive m cs s)"
proof -
  note r = rx_receive_retains [OF assms, of cs]
  have "length (rx_contents m (rx_receive m cs s)) =
          length (take (nat (RX_BUFFER_SIZE m) - 1) (rx_contents m s @ cs))"
    using r by simp
  then have "rx_count m (rx_receive m cs s) =
           min (nat (RX_BUFFER_SIZE m) - 1) (rx_count m s + length cs)"
    using rx_count_less [OF assms] by (auto simp add: length_rx_contents min_def)
  then show ?thesis
    using r by (simp add: USART_RX_vect_full)
qed

theorem USART_RX_vect_drops_when_full_witness:
  "rx_wf OtherMCU \<lparr>rx_buffer = replicate 64 7, rx_buffer_head = 63, rx_buffer_tail = 0\<rparr> \<and>
   rx_count OtherMCU
     (rx_receive OtherMCU [] \<lparr>rx_buffer = replicate 64 7, rx_buffer_head = 63, rx_buffer_tail = 0\<rparr>) = 63 \<and>
   USART_RX_vect OtherMCU 9
     (rx_receive OtherMCU [] \<lparr>rx_buffer = replicate 64 7, rx_buffer_head = 63, rx_buffer_tail = 0\<rparr>) =
     \<lparr>rx_buffer = replicate 64 7, rx_buffer_head = 63, rx_buffer_tail = 0\<rparr> \<and>
   rx_contents OtherMCU (rx_receive OtherMCU [1, 2, 3] (rx_init OtherMCU)) = [1, 2, 3]"
proof -
  let ?s = "\<lparr>rx_buffer = replicate 64 7, rx_buffer_head = 63, rx_buffer_tail = 0\<rparr>"
  have wf: "rx_wf OtherMCU ?s" by (simp add: rx_wf_def)
  have c: "rx_count OtherMCU ?s = 63" by (simp add: rx_count_def)
  have e: "rx_contents OtherMCU (rx_init OtherMCU) = []"
    by (simp add: rx_contents_def rx_count_def rx_init_def ring_contents_def)
  show ?thesis
    using wf c e USART_RX_vect_drops_when_full [OF wf, of "[]" 9] USART_RX_vect_drops_when_full [OF rx_init_wf, of OtherMCU "[1, 2, 3]" 9]
    by (simp add: rx_receive_Nil)
qed

text \<open>
  C2. The claim is that after \<open>N \<le> RX_BUFFER_SIZE - 1\<close> bytes have been received into the
  empty buffer, \<open>N\<close> calls of \<open>serialRead\<close> return them in order. On the code, after the
  bytes 65 and 66 have been received into the initial buffer, \<open>serialRead\<close> returns \<open>-1\<close>
  and leaves the state as it is, so every further call does the same.
\<close>

theorem serialRead_after_receive:
  "rx_receive OtherMCU [65, 66] (rx_init OtherMCU) =
     \<lparr>rx_buffer = (replicate 64 0)[0 := 65, 1 := 66], rx_buffer_head = 2, rx_buffer_tail = 0\<rparr> \<and>
   serialRead OtherMCU (rx_receive OtherMCU [65, 66] (rx_init OtherMCU)) =
     (- 1, rx_receive OtherMCU [65, 66] (rx_init OtherMCU)) \<and>
   fst (serialRead OtherMCU
          (snd (serialRead OtherMCU (rx_receive OtherMCU [65, 66] (rx_init OtherMCU))))) = - 1"
  by (simp add: rx_receive_def USART_RX_vect_def rx_init_def serialRead_def
      serialAnyAvailable_def smod_int_alt_def)

section \<open>Transmitting\<close>



lemma unat_next_index: "unat ((x + 1) mod TX_BUFFER_SIZE :: 8 word) = (unat x + 1) mod TX_BUFFER_SIZE"
proof -
  have "unat ((x + 1) mod 16) = unat (x + 1) mod 16"
    by (simp add: unat_mod)
  also have "unat (x + 1) = (unat x + 1) mod 256"
    by (simp add: unat_word_ariths)
  also have "(unat x + 1) mod 256 mod 16 = (unat x + 1) mod 16"
    by (simp add: mod_mod_cancel)
  finally show ?thesis by (simp add: TX_BUFFER_SIZE_def)
qed


lemma bit_after_disarm: "\<not> bit ((x::8 word) AND NOT (push_bit n 1)) n"
  by (simp add: bit_simps)

lemma flag_test: "((x::8 word) AND push_bit n 1 = 0) = (\<not> bit x n)"
  using bit_iff_and_push_bit_not_eq_0 [of x n] by auto

lemma use_buffer_iff:
  "use_buffer b s \<longleftrightarrow> \<not> bit (UCSR0A s) (UDRE0 b) \<or> tx_buffer_head s \<noteq> tx_buffer_tail s"
  by (simp add: use_buffer_def flag_test del: push_bit_of_1)

text \<open>
  C7. When the \<open>UDRE0\<close> flag is set in \<open>UCSR0A\<close> and the transmit buffer is empty (head
  equal to tail), \<open>serialWrite\<close> returns after writing its byte to \<open>UDR0\<close>; head and
  tail are as before, so the buffer is still empty, and the array and \<open>UCSR0B\<close> are
  untouched.
\<close>

theorem serialWrite_direct_when_idle:
  assumes "bit (UCSR0A s) (UDRE0 b)" and "tx_buffer_head s = tx_buffer_tail s"
  shows "serialWrite b c s = Some (write_UDR0 c s) \<and>
         UDR0 (write_UDR0 c s) = UDR0 s @ [c] \<and>
         tx_buffer_head (write_UDR0 c s) = tx_buffer_head s \<and>
         tx_buffer_tail (write_UDR0 c s) = tx_buffer_tail s \<and>
         tx_buffer_head (write_UDR0 c s) = tx_buffer_tail (write_UDR0 c s) \<and>
         tx_buffer (write_UDR0 c s) = tx_buffer s \<and>
         UCSR0B (write_UDR0 c s) = UCSR0B s"
  using assms by (simp add: serialWrite_def use_buffer_iff write_UDR0_def)

theorem serialWrite_direct_when_idle_witness:
  "bit (UCSR0A \<lparr>tx_buffer = replicate 16 0, tx_buffer_head = 3, tx_buffer_tail = 3,
          UCSR0A = 32, UCSR0B = 152, UDR0 = [1, 2]\<rparr>) (UDRE0 \<lparr>UDRE0 = 5, UDRIE0 = 5\<rparr>) \<and>
   serialWrite \<lparr>UDRE0 = 5, UDRIE0 = 5\<rparr> 7
     \<lparr>tx_buffer = replicate 16 0, tx_buffer_head = 3, tx_buffer_tail = 3,
          UCSR0A = 32, UCSR0B = 152, UDR0 = [1, 2]\<rparr> =
   Some \<lparr>tx_buffer = replicate 16 0, tx_buffer_head = 3, tx_buffer_tail = 3,
          UCSR0A = 32, UCSR0B = 152, UDR0 = [1, 2, 7]\<rparr>"
proof -
  let ?s = "\<lparr>tx_buffer = replicate 16 0, tx_buffer_head = 3, tx_buffer_tail = 3,
          UCSR0A = 32, UCSR0B = 152, UDR0 = [1, 2]\<rparr>"
  let ?b = "\<lparr>UDRE0 = 5, UDRIE0 = 5\<rparr>"
  have r: "bit (UCSR0A ?s) (UDRE0 ?b)" by (simp add: bit_simps)
  have e: "tx_buffer_head ?s = tx_buffer_tail ?s" by simp
  show ?thesis
    using r serialWrite_direct_when_idle [OF r e, of 7] by (simp add: write_UDR0_def)
qed

text \<open>
  C6. One run of the data-register-empty handler, on a buffer whose indices are inside the
  array: it writes the byte at the tail to \<open>UDR0\<close>, advances the tail to
  \<open>(tail + 1) mod TX_BUFFER_SIZE\<close>, and leaves the head, the array and \<open>UCSR0A\<close> as they
  are. If the advanced tail equals the head it clears \<open>UDRIE0\<close> in \<open>UCSR0B\<close>, so the
  interrupt is then disabled; otherwise it leaves \<open>UCSR0B\<close> as it is.
\<close>

theorem USART_UDRE_vect_sends_one_byte:
  assumes "tx_wf s"
  shows "UDR0 (USART_UDRE_vect b s) = UDR0 s @ [tx_buffer s ! unat (tx_buffer_tail s)] \<and>
         unat (tx_buffer_tail (USART_UDRE_vect b s)) =
           (unat (tx_buffer_tail s) + 1) mod TX_BUFFER_SIZE \<and>
         tx_buffer_head (USART_UDRE_vect b s) = tx_buffer_head s \<and>
         tx_buffer (USART_UDRE_vect b s) = tx_buffer s \<and>
         UCSR0A (USART_UDRE_vect b s) = UCSR0A s \<and>
         UCSR0B (USART_UDRE_vect b s) =
           (if tx_buffer_tail (USART_UDRE_vect b s) = tx_buffer_head s
            then UCSR0B s AND NOT (push_bit (UDRIE0 b) 1) else UCSR0B s) \<and>
         (tx_buffer_tail (USART_UDRE_vect b s) = tx_buffer_head s \<longrightarrow>
            \<not> bit (UCSR0B (USART_UDRE_vect b s)) (UDRIE0 b))"
  by (simp add: USART_UDRE_vect_def write_UDR0_def Let_def unat_next_index bit_after_disarm
      del: push_bit_of_1)

theorem USART_UDRE_vect_sends_one_byte_witness:
  "tx_wf \<lparr>tx_buffer = (replicate 16 0)[3 := 9], tx_buffer_head = 4, tx_buffer_tail = 3,
          UCSR0A = 0, UCSR0B = 184, UDR0 = [1]\<rparr> \<and>
   UDR0 (USART_UDRE_vect \<lparr>UDRE0 = 5, UDRIE0 = 5\<rparr>
     \<lparr>tx_buffer = (replicate 16 0)[3 := 9], tx_buffer_head = 4, tx_buffer_tail = 3,
          UCSR0A = 0, UCSR0B = 184, UDR0 = [1]\<rparr>) = [1, 9] \<and>
   tx_buffer_tail (USART_UDRE_vect \<lparr>UDRE0 = 5, UDRIE0 = 5\<rparr>
     \<lparr>tx_buffer = (replicate 16 0)[3 := 9], tx_buffer_head = 4, tx_buffer_tail = 3,
          UCSR0A = 0, UCSR0B = 184, UDR0 = [1]\<rparr>) = 4 \<and>
   \<not> bit (UCSR0B (USART_UDRE_vect \<lparr>UDRE0 = 5, UDRIE0 = 5\<rparr>
     \<lparr>tx_buffer = (replicate 16 0)[3 := 9], tx_buffer_head = 4, tx_buffer_tail = 3,
          UCSR0A = 0, UCSR0B = 184, UDR0 = [1]\<rparr>)) 5"
proof -
  let ?s = "\<lparr>tx_buffer = (replicate 16 0)[3 := 9], tx_buffer_head = 4, tx_buffer_tail = 3,
          UCSR0A = 0, UCSR0B = 184, UDR0 = [1]\<rparr>"
  let ?b = "\<lparr>UDRE0 = 5, UDRIE0 = 5\<rparr>"
  have wf: "tx_wf ?s" by (simp add: tx_wf_def TX_BUFFER_SIZE_def)
  have t: "tx_buffer_tail (USART_UDRE_vect ?b ?s) = 4"
    by (simp add: USART_UDRE_vect_def write_UDR0_def TX_BUFFER_SIZE_def)
  show ?thesis
    using wf t USART_UDRE_vect_sends_one_byte [OF wf, of ?b] by simp
qed













subsection \<open>Statement-level interleavings\<close>























section \<open>Printing\<close>

lemma base_digits_small: "n < b \<Longrightarrow> base_digits b n = [n]"
  by (simp add: base_digits.simps)

lemma base_digits_step:
  "2 \<le> b \<Longrightarrow> b \<le> n \<Longrightarrow> base_digits b n = base_digits b (n div b) @ [n mod b]"
  by (subst base_digits.simps) simp

lemma base_digits_nonempty: "base_digits b n \<noteq> []"
  by (subst base_digits.simps) simp

lemma base_digits_value: "2 \<le> b \<Longrightarrow> digits_value b (base_digits b n) = n"
proof (induction b n rule: base_digits.induct)
  case (1 b n)
  show ?case
  proof (cases "n < b")
    case True
    then show ?thesis by (simp add: base_digits_small digits_value_def)
  next
    case False
    then have "digits_value b (base_digits b (n div b)) = n div b"
      using 1 by simp
    then show ?thesis
      using False 1(2) by (simp add: base_digits_step digits_value_def)
  qed
qed

lemma base_digits_less: "2 \<le> b \<Longrightarrow> d \<in> set (base_digits b n) \<Longrightarrow> d < b"
proof (induction b n rule: base_digits.induct)
  case (1 b n)
  show ?case
  proof (cases "n < b")
    case True
    then show ?thesis using 1(3) by (simp add: base_digits_small)
  next
    case False
    then show ?thesis
      using 1 by (auto simp add: base_digits_step)
  qed
qed

lemma base_digits_leading: "2 \<le> b \<Longrightarrow> 0 < n \<Longrightarrow> hd (base_digits b n) \<noteq> 0"
proof (induction b n rule: base_digits.induct)
  case (1 b n)
  show ?case
  proof (cases "n < b")
    case True
    then show ?thesis using 1(3) by (simp add: base_digits_small)
  next
    case False
    then have "0 < n div b" using 1(2) by (simp add: div_greater_zero_iff)
    then have "hd (base_digits b (n div b)) \<noteq> 0" using 1 False by simp
    then show ?thesis
      using False 1(2) by (simp add: base_digits_step base_digits_nonempty)
  qed
qed

lemma base_digits_length:
  "2 \<le> b \<Longrightarrow> n < 2 ^ k \<Longrightarrow> 0 < k \<Longrightarrow> length (base_digits b n) \<le> k"
proof (induction b n arbitrary: k rule: base_digits.induct)
  case (1 b n)
  show ?case
  proof (cases "n < b")
    case True
    then show ?thesis using 1(4) by (simp add: base_digits_small)
  next
    case False
    then have n2: "2 \<le> n" using 1(2) by simp
    have "k \<noteq> 1" using n2 1(3) by auto
    then obtain j where k: "k = Suc j" "0 < j" using 1(4) by (cases k) auto
    have "n div b \<le> n div 2" using 1(2) by (simp add: div_le_mono2)
    also have "n div 2 < 2 ^ j" using 1(3) k by simp
    finally have "length (base_digits b (n div b)) \<le> j"
      using 1(1) [of j] False 1(2) k by simp
    then show ?thesis
      using False 1(2) k by (simp add: base_digits_step)
  qed
qed

lemma ucast_digit: "(ucast (n mod base :: 32 word) :: 8 word) = of_nat (unat n mod unat base)"
proof -
  have "(ucast (n mod base) :: 8 word) = of_nat (unat (n mod base))" by simp
  then show ?thesis by (simp only: unat_mod)
qed

lemma printIntegerInBase_loop_digits:
  assumes "2 \<le> unat base"
  shows "0 < n \<Longrightarrow> i + length (base_digits (unat base) (unat n)) \<le> length buf \<Longrightarrow>
         printIntegerInBase_loop n base buf i =
           Some (Inr (take i buf @ rev (map of_nat (base_digits (unat base) (unat n))) @
                      drop (i + length (base_digits (unat base) (unat n))) buf,
                      i + length (base_digits (unat base) (unat n))))"
proof (induction "unat n" arbitrary: n buf i rule: less_induct)
  case less
  let ?b = "unat base"
  let ?x = "ucast (n mod base) :: 8 word"
  have b0: "base \<noteq> 0" using assms by auto
  have npos: "0 < unat n" using less.prems(1) by (simp add: word_less_nat_alt)
  have i: "i < length buf"
    using less.prems(2) base_digits_nonempty [of ?b "unat n"]
    by (cases "base_digits ?b (unat n)") auto
  have d: "unat (n div base) = unat n div ?b" by (simp add: unat_div)
  have unfold: "printIntegerInBase_loop n base buf i =
        printIntegerInBase_loop (n div base) base (buf[i := ?x]) (i + 1)"
    using less.prems(1) b0 i by (subst printIntegerInBase_loop.simps) simp
  show ?case
  proof (cases "unat n < ?b")
    case True
    then have "unat (n div base) = 0" using d by simp
    then have z: "n div base = 0" by (simp only: unat_eq_0)
    have x: "?x = of_nat (unat n)" using True by (simp add: ucast_digit)
    have "printIntegerInBase_loop (n div base) base (buf[i := ?x]) (i + 1) =
            Some (Inr (buf[i := ?x], i + 1))"
      by (subst printIntegerInBase_loop.simps) (simp add: z)
    then show ?thesis
      using True i x unfold by (simp add: base_digits_small upd_conv_take_nth_drop)
  next
    case False
    then have ge: "?b \<le> unat n" by simp
    let ?n' = "n div base"
    let ?ds = "base_digits ?b (unat ?n')"
    have pos': "0 < ?n'"
      using ge assms d by (simp add: word_less_nat_alt div_greater_zero_iff)
    have lt': "unat ?n' < unat n" using d assms npos by simp
    have st: "base_digits ?b (unat n) = ?ds @ [unat n mod ?b]"
      using assms ge by (simp add: base_digits_step d)
    have len: "(i + 1) + length ?ds \<le> length (buf[i := ?x])"
      using less.prems(2) st by simp
    have "printIntegerInBase_loop ?n' base (buf[i := ?x]) (i + 1) =
           Some (Inr (take (i + 1) (buf[i := ?x]) @ rev (map of_nat ?ds) @
                      drop (i + 1 + length ?ds) (buf[i := ?x]), i + 1 + length ?ds))"
      using lt' pos' len by (rule less.hyps)
    moreover have "take (i + 1) (buf[i := ?x]) = take i buf @ [?x]"
      using i by (simp add: take_Suc_conv_app_nth)
    moreover have "drop (i + 1 + length ?ds) (buf[i := ?x]) = drop (i + 1 + length ?ds) buf"
      by simp
    ultimately show ?thesis
      using unfold st by (simp add: ucast_digit)
  qed
qed

lemma printIntegerInBase_emit_rev:
  "i \<le> length buf \<Longrightarrow>
   printIntegerInBase_emit buf i out =
     out @ map (\<lambda>d. if d < 10 then of_char (CHR ''0'') + d else of_char (CHR ''A'') + d - 10)
             (rev (take i buf))"
proof (induction i arbitrary: out)
  case 0
  then show ?case by simp
next
  case (Suc i)
  then show ?case
    by (simp add: take_Suc_conv_app_nth printByte_def)
qed

lemma digit_char_table:
  "\<forall>d\<in>set [0..<36].
     (if (of_nat d :: 8 word) < 10 then of_char (CHR ''0'') + of_nat d
      else of_char (CHR ''A'') + of_nat d - 10) = digit_char d"
  by (simp add: upt_rec digit_char_def)

lemma digit_char_eq:
  assumes "d < 36"
  shows "(if (of_nat d :: 8 word) < 10 then of_char (CHR ''0'') + of_nat d
          else of_char (CHR ''A'') + of_nat d - 10) = digit_char d"
  using assms digit_char_table by (simp del: upt_Suc)

lemma printIntegerInBase_nonzero:
  assumes "2 \<le> unat base" "0 < n"
  shows "printIntegerInBase n base out =
           Some (Inr (out @ map (\<lambda>d. if d < 10 then of_char (CHR ''0'') + d
                                        else of_char (CHR ''A'') + d - 10)
                             (map of_nat (base_digits (unat base) (unat n)))))"
proof -
  let ?ds = "base_digits (unat base) (unat n)"
  let ?buf = "replicate (8 * sizeof_long) (0 :: 8 word)"
  have "unat n < 2 ^ 32" using unsigned_less [of n] by simp
  then have len: "length ?ds \<le> 32"
    using assms(1) by (intro base_digits_length) simp_all
  then have fit: "0 + length ?ds \<le> length ?buf" by (simp add: sizeof_long_def)
  have loop: "printIntegerInBase_loop n base ?buf 0 =
          Some (Inr (take 0 ?buf @ rev (map of_nat ?ds) @ drop (0 + length ?ds) ?buf,
                     0 + length ?ds))"
    using assms(1) assms(2) fit by (rule printIntegerInBase_loop_digits)
  have n0: "n \<noteq> 0" using assms(2) by auto
  have "printIntegerInBase_emit (rev (map of_nat ?ds) @ drop (length ?ds) ?buf) (length ?ds) out =
        out @ map (\<lambda>d. if d < 10 then of_char (CHR ''0'') + d else of_char (CHR ''A'') + d - 10)
             (rev (take (length ?ds) (rev (map of_nat ?ds) @ drop (length ?ds) ?buf)))"
    by (rule printIntegerInBase_emit_rev) simp
  then show ?thesis
    using loop n0 by (simp add: printIntegerInBase_def)
qed

lemma printIntegerInBase_symbols:
  assumes "2 \<le> unat base" "unat base \<le> 36" "0 < n"
  shows "printIntegerInBase n base out =
           Some (Inr (out @ map digit_char (base_digits (unat base) (unat n))))"
proof -
  have "d < 36" if "d \<in> set (base_digits (unat base) (unat n))" for d
    using base_digits_less [OF assms(1) that] assms(2) by simp
  then have "map (\<lambda>d. if d < 10 then of_char (CHR ''0'') + d else of_char (CHR ''A'') + d - 10)
                 (map of_nat (base_digits (unat base) (unat n))) =
             map digit_char (base_digits (unat base) (unat n))"
    by (simp add: digit_char_eq)
  then show ?thesis
    using printIntegerInBase_nonzero [OF assms(1,3), of out] by simp
qed

lemma base_digits_42: "base_digits 10 42 = [4, 2]"
  by (simp add: base_digits.simps)

lemma base_digits_255: "base_digits 16 255 = [15, 15]"
  by (simp add: base_digits.simps)

text \<open>
  C8. \<open>printInteger(-42)\<close> hands the bytes \<open>-\<close>, \<open>4\<close>, \<open>2\<close> to \<open>serialWrite\<close>, and
  \<open>printIntegerInBase(255, 16)\<close> the bytes \<open>F\<close>, \<open>F\<close>. For \<open>n = 0\<close>,
  \<open>printIntegerInBase\<close> hands over the single byte \<open>0\<close>. For \<open>n > 0\<close> and a base from 2
  to 36 it returns after handing over the symbols of the digits of \<open>n\<close> in that base, most
  significant first; these digits denote \<open>n\<close>, each is below the base, and the first is
  not zero.
\<close>

theorem printIntegerInBase_positional:
  "printInteger (- 42) [] = Some (Inr (map of_char ''-42'')) \<and>
   printIntegerInBase 255 16 [] = Some (Inr (map of_char ''FF'')) \<and>
   printIntegerInBase 0 base out = Some (Inr (out @ [of_char (CHR ''0'')])) \<and>
   (0 < n \<and> 2 \<le> base \<and> base \<le> 36 \<longrightarrow>
      printIntegerInBase n base out =
        Some (Inr (out @ map digit_char (base_digits (unat base) (unat n)))) \<and>
      digits_value (unat base) (base_digits (unat base) (unat n)) = unat n \<and>
      (\<forall>d\<in>set (base_digits (unat base) (unat n)). d < unat base) \<and>
      hd (base_digits (unat base) (unat n)) \<noteq> 0)"
proof -
  have a: "printInteger (- 42) [] = Some (Inr (map of_char ''-42''))"
    using printIntegerInBase_symbols [of 10 42 "[of_char (CHR ''-'')]"]
    by (simp add: printInteger_def word_sless_alt printByte_def base_digits_42 digit_char_def)
  have b: "printIntegerInBase 255 16 [] = Some (Inr (map of_char ''FF''))"
    using printIntegerInBase_symbols [of 16 255 "[]"]
    by (simp add: base_digits_255 digit_char_def)
  have c: "printIntegerInBase 0 base out = Some (Inr (out @ [of_char (CHR ''0'')]))"
    by (simp add: printIntegerInBase_def printByte_def)
  have d: "printIntegerInBase n base out =
        Some (Inr (out @ map digit_char (base_digits (unat base) (unat n)))) \<and>
      digits_value (unat base) (base_digits (unat base) (unat n)) = unat n \<and>
      (\<forall>d\<in>set (base_digits (unat base) (unat n)). d < unat base) \<and>
      hd (base_digits (unat base) (unat n)) \<noteq> 0"
    if h: "0 < n \<and> 2 \<le> base \<and> base \<le> 36"
  proof -
    have b2: "2 \<le> unat base" and b36: "unat base \<le> 36" and n: "0 < unat n"
      using h by (simp_all add: word_le_nat_alt word_less_nat_alt)
    show ?thesis
      using printIntegerInBase_symbols [OF b2 b36, of n out] h
        base_digits_value [OF b2, of "unat n"] base_digits_less [OF b2]
        base_digits_leading [OF b2 n]
      by blast
  qed
  show ?thesis using a b c d by blast
qed

theorem printIntegerInBase_positional_witness:
  "(0 :: 32 word) < 35 \<and> (2 :: 32 word) \<le> 36 \<and> (36 :: 32 word) \<le> 36 \<and>
   printIntegerInBase 35 36 [] = Some (Inr (map of_char ''Z'')) \<and>
   printInteger (- 42) [] = Some (Inr [45, 52, 50])"
proof -
  have h: "(0 :: 32 word) < 35 \<and> (2 :: 32 word) \<le> 36 \<and> (36 :: 32 word) \<le> 36" by simp
  have "base_digits 36 35 = [35]" by (simp add: base_digits.simps)
  then show ?thesis
    using h printIntegerInBase_positional [of 36 "[]" 35] by (simp add: digit_char_def)
qed










end
